theory Spec2Isabelle
  imports Main "HOL-Library.Word" "HOL-Library.Signed_Division"
begin

section \<open>The devp2p crawler (cmd/devp2p/crawl.go)\<close>

subsection \<open>Time, as the crawler uses Go's time package\<close>

text \<open>
  A \<open>time.Time\<close> is an instant, here the number of nanoseconds since the zero Time
  (January 1, year 1, 00:00:00 UTC). A \<open>time.Duration\<close> is a number of nanoseconds held
  in an int64.
\<close>

type_synonym Time = int
type_synonym Duration = int

definition Second :: Duration where
  "Second = 1000000000"

definition minDuration :: Duration where
  "minDuration = - (2 ^ 63)"

definition maxDuration :: Duration where
  "maxDuration = 2 ^ 63 - 1"

definition IsZero :: "Time \<Rightarrow> bool" where
  "IsZero t \<longleftrightarrow> t = 0"

text \<open>\<open>t.Sub(u)\<close>: the difference, saturated at the least and greatest Duration.\<close>

definition Sub :: "Time \<Rightarrow> Time \<Rightarrow> Duration" where
  "Sub t u =
     (if t - u < minDuration then minDuration
      else if maxDuration < t - u then maxDuration
      else t - u)"

text \<open>
  \<open>time.Since(t)\<close> is \<open>time.Now().Sub(t)\<close> for a \<open>t\<close> without monotonic clock reading
  (\<open>truncNow\<close> strips it); the first argument is what \<open>time.Now()\<close> returns.
\<close>

definition Since :: "Time \<Rightarrow> Time \<Rightarrow> Duration" where
  "Since now t = Sub now t"

text \<open>\<open>t.Truncate(d)\<close>: \<open>t\<close> rounded down to a multiple of \<open>d\<close> since the zero Time.\<close>

definition Truncate :: "Time \<Rightarrow> Duration \<Rightarrow> Time" where
  "Truncate t d = (if d \<le> 0 then t else t - t mod d)"

text \<open>\<open>truncNow\<close>, given what \<open>time.Now()\<close> returns.\<close>

definition truncNow :: "Time \<Rightarrow> Time" where
  "truncNow now = Truncate now (1 * Second)"

subsection \<open>Nodes and the node set\<close>

text \<open>
  An \<open>enode.Node\<close> of package p2p/enode: the crawler reads its \<open>ID()\<close> and \<open>Seq()\<close>; the
  signed record itself is kept as bytes.
\<close>

type_synonym ID = "256 word"

datatype Node = Node (node_ID: ID) (node_Seq: "64 word") (node_Record: string)

text \<open>
  Modelled from the spec: the declaration of \<open>nodeJSON\<close> and \<open>nodeSet\<close> (nodeset.go) is
  not part of the sources at hand. The fields are the ones \<open>updateNode\<close> reads and
  writes: \<open>N\<close> is a pointer (\<open>None\<close> is nil), \<open>Seq\<close> a uint64, \<open>Score\<close> a signed integer,
  Go's \<open>int\<close> at 64 bits, whose \<open>++\<close> wraps around. The identity of a record is its key
  in the node set.
\<close>

record nodeJSON =
  Seq :: "64 word"
  N :: "Node option"
  Score :: "64 word"
  FirstResponse :: Time
  LastResponse :: Time
  LastCheck :: Time

type_synonym nodeSet = "ID \<rightharpoonup> nodeJSON"

text \<open>The zero value of \<open>nodeJSON\<close>, which a Go map lookup returns for a missing key.\<close>

definition zero_nodeJSON :: nodeJSON where
  "zero_nodeJSON =
     \<lparr>Seq = 0, N = None, Score = 0, FirstResponse = 0, LastResponse = 0, LastCheck = 0\<rparr>"

text \<open>\<open>v, ok := m[k]\<close>\<close>

definition lookup :: "nodeSet \<Rightarrow> ID \<Rightarrow> nodeJSON \<times> bool" where
  "lookup m k = (case m k of None \<Rightarrow> (zero_nodeJSON, False) | Some v \<Rightarrow> (v, True))"

text \<open>Go's \<open>a / b\<close> on \<open>int\<close>: the quotient truncated toward zero.\<close>

definition int_quo :: "64 word \<Rightarrow> 64 word \<Rightarrow> 64 word" where
  "int_quo a b = word_of_int (sint a sdiv sint b)"

subsection \<open>The resolver and the environment of one call\<close>

type_synonym error = string

text \<open>
  The resolver is an object outside the crawler. Its state is the list of requests it
  has received, oldest first.
\<close>

record resolver =
  requests :: "Node list"

text \<open>
  What the world answers during one call of \<open>updateNode\<close>: the clock as \<open>time.Since\<close>
  reads it, the outcome of \<open>RequestENR\<close>, and the clock as \<open>truncNow\<close> reads it after
  the request.
\<close>

record env =
  since_now :: Time
  enr_reply :: "error + Node"
  trunc_now :: Time

definition RequestENR :: "env \<Rightarrow> resolver \<Rightarrow> Node \<Rightarrow> (error + Node) \<times> resolver" where
  "RequestENR e d n = (enr_reply e, d\<lparr>requests := requests d @ [n]\<rparr>)"

subsection \<open>The crawler\<close>

datatype status = nodeRemoved | nodeSkipRecent | nodeSkipIncompat | nodeAdded | nodeUpdated

text \<open>
  An \<open>enode.Iterator\<close> is an object outside the crawler; the crawler compares iterators
  by identity (\<open>it == c.inputIter\<close>), so an iterator is modelled by its address.
\<close>

type_synonym iter = nat

text \<open>
  The crawler. The channel \<open>ch\<close> is unbuffered and so has no content of its own: a send
  on it is one step together with the receive (see \<open>Deliver\<close> below). The channel \<open>closed\<close>
  carries no values either: its state is whether it has been closed.
\<close>

record crawler =
  "input" :: nodeSet
  "output" :: nodeSet
  disc :: resolver
  iters :: "iter list"
  inputIter :: iter
  closed :: bool
  revalidateInterval :: Duration

text \<open>The address of the iterator that \<open>enode.IterNodes\<close> allocates: not one of \<open>its\<close>.\<close>

definition IterNodes :: "iter list \<Rightarrow> iter" where
  "IterNodes its = Suc (fold max its 0)"

text \<open>
  \<open>newCrawler\<close>: the iterator over the input set is appended to the given ones, and the
  output set starts as a copy of the input set.
\<close>

definition newCrawler :: "nodeSet \<Rightarrow> resolver \<Rightarrow> iter list \<Rightarrow> crawler" where
  "newCrawler inp d its =
     \<lparr>input = inp, output = inp, disc = d, iters = its @ [IterNodes its],
      inputIter = IterNodes its, closed = False, revalidateInterval = 0\<rparr>"

text \<open>
  \<open>updateNode\<close>. The two early returns are the \<open>nodeSkipRecent\<close> branch and the \<open>Inl\<close>
  of the inner result; the last \<open>if\<close> is the block that stores or deletes the record.
\<close>

definition updateNode :: "env \<Rightarrow> Node \<Rightarrow> crawler \<Rightarrow> status \<times> crawler" where
  "updateNode e n c =
     (let (node, ok) = lookup (output c) (node_ID n) in
      if ok \<and> Since (since_now e) (LastCheck node) < revalidateInterval c
      then (nodeSkipRecent, c)
      else
        let (reply, d) = RequestENR e (disc c) n;
            c = c\<lparr>disc := d\<rparr>;
            node = node\<lparr>LastCheck := truncNow (trunc_now e)\<rparr>;
            r = (case reply of
                   Inl err \<Rightarrow>
                     if Score node = 0 then Inl nodeSkipIncompat
                     else Inr (node\<lparr>Score := int_quo (Score node) 2\<rparr>, nodeUpdated)
                 | Inr nn \<Rightarrow>
                     let node = node\<lparr>N := Some nn\<rparr>;
                         node = node\<lparr>Seq := node_Seq nn\<rparr>;
                         node = node\<lparr>Score := Score node + 1\<rparr>;
                         (node, status) =
                           (if IsZero (FirstResponse node)
                            then (node\<lparr>FirstResponse := LastCheck node\<rparr>, nodeAdded)
                            else (node, nodeUpdated));
                         node = node\<lparr>LastResponse := LastCheck node\<rparr>
                     in Inr (node, status))
        in case r of
             Inl st \<Rightarrow> (st, c)
           | Inr (node, status) \<Rightarrow>
               if sint (Score node) \<le> 0
               then (nodeRemoved, c\<lparr>output := (output c)(node_ID n := None)\<rparr>)
               else (status, c\<lparr>output := (output c)(node_ID n \<mapsto> node)\<rparr>))"

text \<open>
  A sequence of \<open>updateNode\<close> calls, as the consumer loop of \<open>run\<close> makes them, one per
  node delivered on the channel: the classifications in order, and the crawler after
  the last call.
\<close>

fun updateNodes :: "(env \<times> Node) list \<Rightarrow> crawler \<Rightarrow> status list \<times> crawler" where
  "updateNodes [] c = ([], c)"
| "updateNodes ((e, n) # calls) c =
     (let (st, c') = updateNode e n c;
          (sts, c'') = updateNodes calls c'
      in (st # sts, c''))"

text \<open>Every record of a node set has a positive score.\<close>

definition all_positive :: "nodeSet \<Rightarrow> bool" where
  "all_positive m \<longleftrightarrow> (\<forall>k r. m k = Some r \<longrightarrow> 0 < sint (Score r))"

subsection \<open>run and runIterator, step by step\<close>

text \<open>
  \<open>run\<close> starts one goroutine per iterator and then consumes what they send. The model
  is the state of all of them and a step function: each action is one step of one
  goroutine, possible only in the states where the Go statement can proceed.

  A worker, the goroutine \<open>runIterator(doneCh, it)\<close>, is in the call \<open>it.Next()\<close>, or in its
  \<open>select\<close> with the node to send, or in its deferred function about to send on \<open>doneCh\<close>,
  or it has returned.
\<close>

datatype worker = AtNext | AtSelect Node | Exiting | Finished

text \<open>
  The consumer, the goroutine that called \<open>run\<close>, is in the labelled loop, or between the
  loop and \<open>close(c.closed)\<close>, or in the loop that drains \<open>doneCh\<close>, or it has returned.
\<close>

datatype phase = InLoop | AfterLoop | Draining | Returned

text \<open>The two \<open>break loop\<close> statements.\<close>

datatype exit_via = Exhausted | TimedOut

text \<open>
  The state of a run. \<open>workers ! i\<close> is the goroutine of \<open>c.iters ! i\<close>; \<open>doneCh\<close> is the
  content of the buffered channel; \<open>timeoutCh\<close> is false while the variable is nil and true
  once it is \<open>timeoutTimer.C\<close>; the timer was created at \<open>started\<close> and \<open>now\<close> is the clock.
  Three fields record what happened and are never read by a step: \<open>replayed_at\<close>, the time
  of the log line "Revalidation of input set is done"; \<open>left_loop\<close>, how and when the loop
  was left; \<open>closed_iters\<close>, the iterators on which \<open>Close\<close> was called.
\<close>

record run_state =
  crawler :: crawler
  workers :: "worker list"
  doneCh :: "iter list"
  timeoutCh :: bool
  liveIters :: int
  added :: "64 word"
  updated :: "64 word"
  skipped :: "64 word"
  recent :: "64 word"
  removed :: "64 word"
  phase :: phase
  started :: Time
  now :: Time
  replayed_at :: "Time option"
  left_loop :: "(exit_via \<times> Time) option"
  closed_iters :: "iter list"

text \<open>
  The state when the loop is entered: the timer is created, \<open>timeoutCh\<close> is nil, \<open>doneCh\<close> is
  empty with capacity \<open>len(c.iters)\<close>, and every worker is started.
\<close>

definition run_start :: "crawler \<Rightarrow> Time \<Rightarrow> run_state" where
  "run_start c t =
     \<lparr>crawler = c, workers = replicate (length (iters c)) AtNext, doneCh = [],
      timeoutCh = False, liveIters = int (length (iters c)),
      added = 0, updated = 0, skipped = 0, recent = 0, removed = 0,
      phase = InLoop, started = t, now = t, replayed_at = None, left_loop = None,
      closed_iters = []\<rparr>"

text \<open>The \<open>switch\<close> on the classification: one counter is incremented.\<close>

definition tally :: "status \<Rightarrow> run_state \<Rightarrow> run_state" where
  "tally st s =
     (case st of
        nodeSkipIncompat \<Rightarrow> s\<lparr>skipped := skipped s + 1\<rparr>
      | nodeSkipRecent \<Rightarrow> s\<lparr>recent := recent s + 1\<rparr>
      | nodeRemoved \<Rightarrow> s\<lparr>removed := removed s + 1\<rparr>
      | nodeAdded \<Rightarrow> s\<lparr>added := added s + 1\<rparr>
      | nodeUpdated \<Rightarrow> s\<lparr>updated := updated s + 1\<rparr>)"

text \<open>
  The actions. Of a worker \<open>i\<close>, in \<open>runIterator\<close>: \<open>it.Next()\<close> returns true with
  \<open>it.Node() = n\<close>, or returns false; the \<open>select\<close> takes \<open>case <-c.closed\<close>; the deferred
  function sends on \<open>doneCh\<close>. Of worker \<open>i\<close> and the consumer together: the send
  \<open>c.ch <- it.Node()\<close> of \<open>runIterator\<close> meets \<open>case n := <-c.ch\<close> of \<open>run\<close>, and the consumer
  runs \<open>updateNode(n)\<close>, in which the request gets the given reply after the given time.
  Of the consumer, in \<open>run\<close>: the other three cases of its \<open>select\<close>; \<open>close(c.closed)\<close> with
  the loop that closes every iterator; one receive of the drain loop; \<open>return\<close>. Of the
  clock: time passes. What an iterator yields and when it ends is its own business: any
  node may come from any iterator.
\<close>

datatype action =
    Next_true nat Node
  | Next_false nat
  | See_closed nat
  | Send_done nat
  | Deliver nat "error + Node" nat
  | Recv_done
  | Time_out
  | Tick
  | Shut_down
  | Drain
  | Return
  | Wait nat

text \<open>
  One step; \<open>None\<close> where the statement cannot proceed. A send on \<open>doneCh\<close> needs room in
  the buffer, a receive needs a value in it. A receive from \<open>timeoutCh\<close> needs the variable
  to be non-nil and the timer, created at \<open>started\<close> for \<open>timeout\<close>, to have fired. A receive
  from \<open>c.closed\<close> needs the channel to be closed, and closing it again would panic.
\<close>

definition run_step :: "Duration \<Rightarrow> run_state \<Rightarrow> action \<Rightarrow> run_state option" where
  "run_step timeout s a =
     (case a of
        Next_true i n \<Rightarrow>
          if i < length (workers s) \<and> workers s ! i = AtNext
          then Some (s\<lparr>workers := (workers s)[i := AtSelect n]\<rparr>)
          else None
      | Next_false i \<Rightarrow>
          if i < length (workers s) \<and> workers s ! i = AtNext
          then Some (s\<lparr>workers := (workers s)[i := Exiting]\<rparr>)
          else None
      | See_closed i \<Rightarrow>
          (case (if i < length (workers s) then workers s ! i else Finished) of
             AtSelect n \<Rightarrow>
               if closed (crawler s)
               then Some (s\<lparr>workers := (workers s)[i := Exiting]\<rparr>)
               else None
           | _ \<Rightarrow> None)
      | Send_done i \<Rightarrow>
          if i < length (workers s) \<and> i < length (iters (crawler s))
             \<and> workers s ! i = Exiting
             \<and> length (doneCh s) < length (iters (crawler s))
          then Some (s\<lparr>workers := (workers s)[i := Finished],
                       doneCh := doneCh s @ [iters (crawler s) ! i]\<rparr>)
          else None
      | Deliver i reply took \<Rightarrow>
          (case (if i < length (workers s) then workers s ! i else Finished) of
             AtSelect n \<Rightarrow>
               if phase s = InLoop
               then let e = \<lparr>since_now = now s, enr_reply = reply,
                               trunc_now = now s + int took\<rparr>;
                        (st, c) = updateNode e n (crawler s)
                    in Some (tally st (s\<lparr>crawler := c, workers := (workers s)[i := AtNext],
                                         now := now s + int took\<rparr>))
               else None
           | _ \<Rightarrow> None)
      | Recv_done \<Rightarrow>
          (case doneCh s of
             [] \<Rightarrow> None
           | it # rest \<Rightarrow>
               if phase s = InLoop
               then let s = s\<lparr>doneCh := rest\<rparr>;
                        s = (if it = inputIter (crawler s)
                             then (let s = s\<lparr>replayed_at := Some (now s)\<rparr>
                                   in if 0 < timeout then s\<lparr>timeoutCh := True\<rparr> else s)
                             else s);
                        s = s\<lparr>liveIters := liveIters s - 1\<rparr>
                    in Some (if liveIters s = 0
                             then s\<lparr>phase := AfterLoop, left_loop := Some (Exhausted, now s)\<rparr>
                             else s)
               else None)
      | Time_out \<Rightarrow>
          if phase s = InLoop \<and> timeoutCh s \<and> started s + timeout \<le> now s
          then Some (s\<lparr>phase := AfterLoop, left_loop := Some (TimedOut, now s)\<rparr>)
          else None
      | Tick \<Rightarrow> if phase s = InLoop then Some s else None
      | Shut_down \<Rightarrow>
          if phase s = AfterLoop \<and> \<not> closed (crawler s)
          then Some (s\<lparr>crawler := (crawler s)\<lparr>closed := True\<rparr>,
                       closed_iters := iters (crawler s), phase := Draining\<rparr>)
          else None
      | Drain \<Rightarrow>
          (case doneCh s of
             [] \<Rightarrow> None
           | it # rest \<Rightarrow>
               if phase s = Draining \<and> 0 < liveIters s
               then Some (s\<lparr>doneCh := rest, liveIters := liveIters s - 1\<rparr>)
               else None)
      | Return \<Rightarrow>
          if phase s = Draining \<and> \<not> 0 < liveIters s
          then Some (s\<lparr>phase := Returned\<rparr>)
          else None
      | Wait d \<Rightarrow> Some (s\<lparr>now := now s + int d\<rparr>))"

text \<open>A sequence of steps; \<open>None\<close> when one of them is not possible.\<close>

fun run_steps :: "Duration \<Rightarrow> action list \<Rightarrow> run_state \<Rightarrow> run_state option" where
  "run_steps timeout [] s = Some s"
| "run_steps timeout (a # as) s =
     (case run_step timeout s a of
        None \<Rightarrow> None
      | Some s' \<Rightarrow> run_steps timeout as s')"


subsection \<open>Sample inputs\<close>

text \<open>
  Concrete values for the examples: a clock reading \<open>s\<close> seconds after an instant in the
  year 2025, a peer as an iterator delivers it and its resolved record, a record of the
  node set with a given score that was last checked at \<open>clock 1000\<close>, a record of an input
  set that was never crawled (no score, no timestamps), a crawler over an input set with
  a revalidation interval of ten minutes, and the environment of a call whose request
  fails or succeeds.
\<close>

definition clock :: "int \<Rightarrow> Time" where
  "clock s = (63900000000 + s) * Second"

definition peer :: Node where
  "peer = Node 1 0 ''enode''"

definition peer_enr :: Node where
  "peer_enr = Node 1 3 ''enr''"

definition known :: "64 word \<Rightarrow> nodeJSON" where
  "known s = \<lparr>Seq = 3, N = Some peer_enr, Score = s, FirstResponse = clock 10,
               LastResponse = clock 1000, LastCheck = clock 1000\<rparr>"

definition listed :: nodeJSON where
  "listed = \<lparr>Seq = 3, N = Some peer_enr, Score = 0, FirstResponse = 0,
              LastResponse = 0, LastCheck = 0\<rparr>"

definition crawl_from :: "nodeSet \<Rightarrow> crawler" where
  "crawl_from inp =
     (newCrawler inp \<lparr>requests = []\<rparr> [])\<lparr>revalidateInterval := 600 * Second\<rparr>"

definition failing_at :: "Time \<Rightarrow> env" where
  "failing_at t = \<lparr>since_now = t, enr_reply = Inl ''timeout'', trunc_now = t + 250000000\<rparr>"

definition answering_at :: "Time \<Rightarrow> Node \<Rightarrow> env" where
  "answering_at t nn = \<lparr>since_now = t, enr_reply = Inr nn, trunc_now = t + 250000000\<rparr>"

subsection \<open>Invariants of a run\<close>

text \<open>The number of workers that have not returned.\<close>

definition unfinished :: "worker list \<Rightarrow> nat" where
  "unfinished ws = length (filter (\<lambda>w. w \<noteq> Finished) ws)"

text \<open>
  \<open>liveIters\<close> counts the workers that have not returned together with the notifications
  waiting in \<open>doneCh\<close>.
\<close>

definition counted :: "run_state \<Rightarrow> bool" where
  "counted s \<longleftrightarrow>
     length (workers s) = length (iters (crawler s))
   \<and> liveIters s = int (unfinished (workers s)) + int (length (doneCh s))"

text \<open>
  How the phase of the consumer, the record of the exit and the shutdown go together;
  what the clock says about the recorded times; and that \<open>c.closed\<close> is open until the
  loop has been left.
\<close>

definition phased :: "run_state \<Rightarrow> bool" where
  "phased s \<longleftrightarrow>
     (phase s = InLoop \<longrightarrow> left_loop s = None)
   \<and> (phase s \<noteq> InLoop \<longrightarrow> left_loop s \<noteq> None)
   \<and> (\<forall>t. left_loop s = Some (Exhausted, t) \<longrightarrow> liveIters s = 0)
   \<and> (phase s = Draining \<or> phase s = Returned \<longrightarrow>
        closed (crawler s) \<and> closed_iters s = iters (crawler s))
   \<and> (phase s = Returned \<longrightarrow> liveIters s \<le> 0)"

definition timed :: "Duration \<Rightarrow> run_state \<Rightarrow> bool" where
  "timed T s \<longleftrightarrow>
     started s \<le> now s
   \<and> (phase s = InLoop \<longrightarrow> left_loop s = None)
   \<and> (timeoutCh s \<longrightarrow> 0 < T \<and> replayed_at s \<noteq> None)
   \<and> (\<forall>tr. replayed_at s = Some tr \<longrightarrow> started s \<le> tr \<and> tr \<le> now s)
   \<and> (\<forall>v t. left_loop s = Some (v, t) \<longrightarrow> t \<le> now s)
   \<and> (\<forall>t. left_loop s = Some (TimedOut, t) \<longrightarrow>
        0 < T \<and> started s + T \<le> t \<and> (\<exists>tr. replayed_at s = Some tr \<and> tr \<le> t))"

definition unclosed :: "run_state \<Rightarrow> bool" where
  "unclosed s \<longleftrightarrow> (phase s = InLoop \<or> phase s = AfterLoop \<longrightarrow> \<not> closed (crawler s))"

text \<open>
  Sample runs. \<open>seeded\<close> is a crawler with one discovery iterator, at address 7, and an
  input set of one node. In \<open>slow_replay\<close> the replay iterator yields that node, the request
  for it fails after ten seconds, the replay iterator is exhausted and reports, the
  timeout is taken, and the discovery iterator, which has found nothing, ends when it is
  closed.
\<close>

definition seeded :: crawler where
  "seeded =
     (newCrawler [1 \<mapsto> known 4] \<lparr>requests = []\<rparr> [7])\<lparr>revalidateInterval := 600 * Second\<rparr>"

definition slow_replay :: "action list" where
  "slow_replay =
     [Next_true 1 peer_enr, Deliver 1 (Inl ''timeout'') 10000000000, Next_false 1, Send_done 1,
      Recv_done, Time_out, Shut_down, Next_false 0, Send_done 0, Drain, Return]"

text \<open>
  In \<open>full_crawl\<close>, a run of \<open>seeded\<close> without timeout, the replay iterator yields the node of
  the input set and the discovery iterator a new peer; the request for the first fails
  and the request for the second succeeds; then both iterators are exhausted, the replay
  iterator first.
\<close>

definition full_crawl :: "action list" where
  "full_crawl =
     [Next_true 1 peer_enr, Next_true 0 (Node 2 0 ''enode''),
      Deliver 1 (Inl ''timeout'') 500000000, Deliver 0 (Inr (Node 2 5 ''enr'')) 250000000,
      Next_false 1, Send_done 1, Recv_done, Wait 1000000000,
      Next_false 0, Send_done 0, Recv_done, Shut_down, Return]"

section \<open>Arithmetic of the score\<close>

lemma sint_of_int_64:
  "- (2 ^ 63) \<le> k \<Longrightarrow> k < 2 ^ 63 \<Longrightarrow> sint (word_of_int k :: 64 word) = k"
  by (simp add: sint_sbintrunc' signed_take_bit_int_eq_self)

lemma sdiv_2_eq: "(k::int) sdiv 2 = (if 0 \<le> k then k div 2 else - ((- k) div 2))"
  by (simp add: signed_divide_int_def sgn_if)

lemma sint_64_bounds: "- (2 ^ 63) \<le> sint (w :: 64 word) \<and> sint w < 2 ^ 63"
  using sint_ge [of w] sint_lt [of w] by simp

lemma sint_int_quo_2: "sint (int_quo s 2) = sint s sdiv 2"
proof -
  have b: "- (2 ^ 63) \<le> sint s \<and> sint s < 2 ^ 63" by (rule sint_64_bounds)
  have "- (2 ^ 63) \<le> sint s sdiv 2 \<and> sint s sdiv 2 < 2 ^ 63"
    using b by (simp add: sdiv_2_eq) linarith
  then show ?thesis
    by (simp add: int_quo_def sint_of_int_64)
qed

section \<open>What one call of updateNode does\<close>

text \<open>
  One equation per path through \<open>updateNode\<close>: the record looked up is \<open>r\<close> (the zero
  record when \<open>ok\<close> is false), and every path but the first sends one request to the
  resolver.
\<close>

lemma updateNode_failure:
  assumes "lookup (output c) (node_ID n) = (r, ok)"
      and "\<not> (ok \<and> Since (since_now e) (LastCheck r) < revalidateInterval c)"
      and "Score r \<noteq> 0"
      and "enr_reply e = Inl err"
  shows "updateNode e n c =
           (if sint (Score r) sdiv 2 \<le> 0
            then (nodeRemoved,
                  c\<lparr>disc := (disc c)\<lparr>requests := requests (disc c) @ [n]\<rparr>,
                    output := (output c)(node_ID n := None)\<rparr>)
            else (nodeUpdated,
                  c\<lparr>disc := (disc c)\<lparr>requests := requests (disc c) @ [n]\<rparr>,
                    output := (output c)(node_ID n \<mapsto>
                      r\<lparr>LastCheck := truncNow (trunc_now e),
                        Score := int_quo (Score r) 2\<rparr>)\<rparr>))"
  using assms
  by (auto simp add: updateNode_def RequestENR_def Let_def sint_int_quo_2)

lemma updateNode_recent:
  assumes "lookup (output c) (node_ID n) = (r, ok)"
      and "ok \<and> Since (since_now e) (LastCheck r) < revalidateInterval c"
  shows "updateNode e n c = (nodeSkipRecent, c)"
  using assms by (simp add: updateNode_def)

lemma updateNode_success:
  assumes "lookup (output c) (node_ID n) = (r, ok)"
      and "\<not> (ok \<and> Since (since_now e) (LastCheck r) < revalidateInterval c)"
      and "enr_reply e = Inr nn"
  shows "updateNode e n c =
           (if sint (Score r + 1) \<le> 0
            then (nodeRemoved,
                  c\<lparr>disc := (disc c)\<lparr>requests := requests (disc c) @ [n]\<rparr>,
                    output := (output c)(node_ID n := None)\<rparr>)
            else (if IsZero (FirstResponse r) then nodeAdded else nodeUpdated,
                  c\<lparr>disc := (disc c)\<lparr>requests := requests (disc c) @ [n]\<rparr>,
                    output := (output c)(node_ID n \<mapsto>
                      r\<lparr>LastCheck := truncNow (trunc_now e), N := Some nn, Seq := node_Seq nn,
                        Score := Score r + 1,
                        FirstResponse := (if IsZero (FirstResponse r) then truncNow (trunc_now e) else FirstResponse r),
                        LastResponse := truncNow (trunc_now e)\<rparr>)\<rparr>))"
  using assms
  by (auto simp add: updateNode_def RequestENR_def Let_def)

lemma updateNode_skip_incompat:
  assumes "lookup (output c) (node_ID n) = (r, ok)"
      and "\<not> (ok \<and> Since (since_now e) (LastCheck r) < revalidateInterval c)"
      and "Score r = 0"
      and "enr_reply e = Inl err"
  shows "updateNode e n c =
           (nodeSkipIncompat, c\<lparr>disc := (disc c)\<lparr>requests := requests (disc c) @ [n]\<rparr>\<rparr>)"
  using assms
  by (simp add: updateNode_def RequestENR_def Let_def)

lemma updateNode_revalidateInterval:
  "revalidateInterval (snd (updateNode e n c)) = revalidateInterval c"
  by (auto simp add: updateNode_def RequestENR_def Let_def split: prod.splits sum.splits)

lemma updateNode_output_cases:
  "output (snd (updateNode e n c)) = output c
 \<or> output (snd (updateNode e n c)) = (output c)(node_ID n := None)
 \<or> (\<exists>node. 0 < sint (Score node)
        \<and> output (snd (updateNode e n c)) = (output c)(node_ID n \<mapsto> node))"
proof -
  obtain r ok where l: "lookup (output c) (node_ID n) = (r, ok)"
    by (cases "lookup (output c) (node_ID n)")
  show ?thesis
  proof (cases "ok \<and> Since (since_now e) (LastCheck r) < revalidateInterval c")
    case True
    then show ?thesis by (simp add: updateNode_recent [OF l])
  next
    case due: False
    show ?thesis
    proof (cases "enr_reply e")
      case (Inl err)
      show ?thesis
      proof (cases "Score r = 0")
        case True
        then show ?thesis by (simp add: updateNode_skip_incompat [OF l due _ Inl])
      next
        case False
        show ?thesis
        proof (cases "sint (Score r) sdiv 2 \<le> 0")
          case True
          then show ?thesis by (simp add: updateNode_failure [OF l due False Inl])
        next
          case pos: False
          let ?R = "r\<lparr>LastCheck := truncNow (trunc_now e), Score := int_quo (Score r) 2\<rparr>"
          have "0 < sint (Score ?R)"
            using pos by (simp add: sint_int_quo_2)
          moreover have "output (snd (updateNode e n c)) = (output c)(node_ID n \<mapsto> ?R)"
            using pos by (simp add: updateNode_failure [OF l due False Inl])
          ultimately show ?thesis by blast
        qed
      qed
    next
      case (Inr nn)
      show ?thesis
      proof (cases "sint (Score r + 1) \<le> 0")
        case True
        then show ?thesis by (simp add: updateNode_success [OF l due Inr])
      next
        case pos: False
        let ?R = "r\<lparr>LastCheck := truncNow (trunc_now e), N := Some nn,
                    Seq := node_Seq nn, Score := Score r + 1,
                    FirstResponse := (if IsZero (FirstResponse r)
                                      then truncNow (trunc_now e) else FirstResponse r),
                    LastResponse := truncNow (trunc_now e)\<rparr>"
        have "0 < sint (Score ?R)"
          using pos by simp
        moreover have "output (snd (updateNode e n c)) = (output c)(node_ID n \<mapsto> ?R)"
          using pos by (simp add: updateNode_success [OF l due Inr])
        ultimately show ?thesis by blast
      qed
    qed
  qed
qed

lemma updateNode_all_positive:
  assumes "all_positive (output c)"
  shows "all_positive (output (snd (updateNode e n c)))"
  using assms updateNode_output_cases [of e n c]
  by (auto simp add: all_positive_def split: if_splits)

lemma updateNodes_snd_Cons:
  "snd (updateNodes ((e, n) # calls) c) = snd (updateNodes calls (snd (updateNode e n c)))"
  by (simp add: split_def Let_def)

lemma updateNodes_preserves_all_positive:
  "all_positive (output c) \<Longrightarrow> all_positive (output (snd (updateNodes calls c)))"
proof (induction calls arbitrary: c)
  case Nil
  then show ?case by simp
next
  case (Cons a calls)
  obtain e n where a: "a = (e, n)" by (cases a)
  show ?case
    unfolding a updateNodes_snd_Cons
    by (rule Cons.IH) (rule updateNode_all_positive [OF Cons.prems])
qed

lemma updateNode_removed_iff:
  "fst (updateNode e n c) = nodeRemoved \<longleftrightarrow>
     output c (node_ID n) \<noteq> None \<and> output (snd (updateNode e n c)) (node_ID n) = None"
proof -
  obtain r ok where l: "lookup (output c) (node_ID n) = (r, ok)"
    by (cases "lookup (output c) (node_ID n)")
  then have ok: "ok \<longleftrightarrow> output c (node_ID n) \<noteq> None"
    and z: "\<not> ok \<Longrightarrow> Score r = 0"
    by (auto simp add: lookup_def zero_nodeJSON_def split: option.splits)
  show ?thesis
  proof (cases "ok \<and> Since (since_now e) (LastCheck r) < revalidateInterval c")
    case True
    then show ?thesis using ok by (simp add: updateNode_recent [OF l])
  next
    case due: False
    show ?thesis
    proof (cases "enr_reply e")
      case (Inl err)
      show ?thesis
      proof (cases "Score r = 0")
        case True
        then show ?thesis using ok by (auto simp add: updateNode_skip_incompat [OF l due _ Inl])
      next
        case False
        then have "ok" using z by blast
        then show ?thesis
          using ok by (simp add: updateNode_failure [OF l due False Inl])
      qed
    next
      case (Inr nn)
      have "sint (Score r + 1) \<le> 0 \<Longrightarrow> ok"
      proof (rule ccontr)
        assume a: "sint (Score r + 1) \<le> 0" and "\<not> ok"
        then have "Score r = 0" using z by simp
        then show False using a by simp
      qed
      then show ?thesis
        using ok by (auto simp add: updateNode_success [OF l due Inr])
    qed
  qed
qed

section \<open>Properties of updateNode\<close>

text \<open>The failing probe of a record with a nonzero score, field by field.\<close>

lemma failure_step:
  assumes rec: "output c (node_ID n) = Some r"
      and nz: "Score r \<noteq> 0"
      and due: "\<not> Since (since_now e) (LastCheck r) < revalidateInterval c"
      and fail: "enr_reply e = Inl err"
  shows "fst (updateNode e n c) = (if sint (Score r) sdiv 2 \<le> 0 then nodeRemoved else nodeUpdated)"
    and "output (snd (updateNode e n c)) =
           (output c)(node_ID n :=
              (if sint (Score r) sdiv 2 \<le> 0 then None
               else Some (r\<lparr>LastCheck := truncNow (trunc_now e), Score := int_quo (Score r) 2\<rparr>)))"
    and "revalidateInterval (snd (updateNode e n c)) = revalidateInterval c"
proof -
  have l: "lookup (output c) (node_ID n) = (r, True)"
    using rec by (simp add: lookup_def)
  have u: "updateNode e n c =
           (if sint (Score r) sdiv 2 \<le> 0
            then (nodeRemoved,
                  c\<lparr>disc := (disc c)\<lparr>requests := requests (disc c) @ [n]\<rparr>,
                    output := (output c)(node_ID n := None)\<rparr>)
            else (nodeUpdated,
                  c\<lparr>disc := (disc c)\<lparr>requests := requests (disc c) @ [n]\<rparr>,
                    output := (output c)(node_ID n \<mapsto>
                      r\<lparr>LastCheck := truncNow (trunc_now e),
                        Score := int_quo (Score r) 2\<rparr>)\<rparr>))"
    using due by (intro updateNode_failure [OF l _ nz fail]) simp
  show "fst (updateNode e n c) = (if sint (Score r) sdiv 2 \<le> 0 then nodeRemoved else nodeUpdated)"
    by (simp add: u)
  show "output (snd (updateNode e n c)) =
           (output c)(node_ID n :=
              (if sint (Score r) sdiv 2 \<le> 0 then None
               else Some (r\<lparr>LastCheck := truncNow (trunc_now e), Score := int_quo (Score r) 2\<rparr>)))"
    by (simp add: u)
  show "revalidateInterval (snd (updateNode e n c)) = revalidateInterval c"
    by (simp add: u)
qed

lemmas sample_defs = clock_def peer_def peer_enr_def known_def listed_def crawl_from_def
  failing_at_def answering_at_def newCrawler_def Second_def truncNow_def Truncate_def
  Since_def Sub_def minDuration_def maxDuration_def

text \<open>
  C1. Amended: when every record of the output set has a positive score before a sequence
  of \<open>updateNode\<close> calls, every record of the output set has a positive score after each
  call of the sequence (after the first \<open>k\<close> calls, for every \<open>k\<close>); and at every point of
  the sequence a call that makes the score of the candidate's record non-positive, by
  halving it after a failed request or by incrementing it past the largest \<open>int\<close> after a
  successful one, deletes the record from the output set in that call and is classified
  \<open>nodeRemoved\<close>.
\<close>

theorem updateNodes_score_invariant:
  assumes "all_positive (output c)"
  shows "(\<forall>k. all_positive (output (snd (updateNodes (take k calls) c))))
       \<and> (\<forall>k e n r.
            output (snd (updateNodes (take k calls) c)) (node_ID n) = Some r
          \<and> \<not> Since (since_now e) (LastCheck r)
                < revalidateInterval (snd (updateNodes (take k calls) c))
          \<and> (case enr_reply e of
                Inl err \<Rightarrow> sint (Score r) div 2
              | Inr nn \<Rightarrow> sint (Score r + 1)) \<le> 0
          \<longrightarrow> 0 < sint (Score r)
            \<and> fst (updateNode e n (snd (updateNodes (take k calls) c))) = nodeRemoved
            \<and> output (snd (updateNode e n (snd (updateNodes (take k calls) c)))) (node_ID n)
                = None)"
proof -
  have inv: "all_positive (output (snd (updateNodes (take k calls) c)))" for k
    by (rule updateNodes_preserves_all_positive [OF assms])
  have del: "0 < sint (Score r)
            \<and> fst (updateNode e n ck) = nodeRemoved
            \<and> output (snd (updateNode e n ck)) (node_ID n) = None"
    if ck: "all_positive (output ck)"
      and rec: "output ck (node_ID n) = Some r"
      and due: "\<not> Since (since_now e) (LastCheck r) < revalidateInterval ck"
      and np: "(case enr_reply e of
                Inl err \<Rightarrow> sint (Score r) div 2
              | Inr nn \<Rightarrow> sint (Score r + 1)) \<le> 0"
    for ck e n r
  proof -
    have pos: "0 < sint (Score r)"
      using ck rec by (auto simp add: all_positive_def)
    then have nz: "Score r \<noteq> 0" by auto
    have l: "lookup (output ck) (node_ID n) = (r, True)"
      using rec by (simp add: lookup_def)
    have d: "\<not> (True \<and> Since (since_now e) (LastCheck r) < revalidateInterval ck)"
      using due by simp
    show ?thesis
    proof (cases "enr_reply e")
      case (Inl err)
      with np pos have "sint (Score r) sdiv 2 \<le> 0"
        by (simp add: sdiv_2_eq)
      then show ?thesis
        using pos by (simp add: updateNode_failure [OF l d nz Inl])
    next
      case (Inr nn)
      with np have "sint (Score r + 1) \<le> 0" by simp
      then show ?thesis
        using pos by (simp add: updateNode_success [OF l d Inr])
    qed
  qed
  show ?thesis
    using inv del by blast
qed

theorem updateNodes_score_invariant_witness:
  "all_positive (output (crawl_from [1 \<mapsto> known 1]))
 \<and> all_positive (output (snd (updateNodes
        (take 2 [(failing_at (clock 2000), peer), (answering_at (clock 3000) peer_enr, peer)])
        (crawl_from [1 \<mapsto> known 1]))))
 \<and> fst (updateNodes [(failing_at (clock 2000), peer), (answering_at (clock 3000) peer_enr, peer)]
        (crawl_from [1 \<mapsto> known 1])) = [nodeRemoved, nodeAdded]
 \<and> output (crawl_from [1 \<mapsto> known 1]) (node_ID peer) = Some (known 1)
 \<and> \<not> Since (since_now (failing_at (clock 2000))) (LastCheck (known 1))
      < revalidateInterval (crawl_from [1 \<mapsto> known 1])
 \<and> sint (Score (known 1)) div 2 \<le> 0
 \<and> fst (updateNode (failing_at (clock 2000)) peer (crawl_from [1 \<mapsto> known 1])) = nodeRemoved
 \<and> output (snd (updateNode (failing_at (clock 2000)) peer (crawl_from [1 \<mapsto> known 1])))
      (node_ID peer) = None
 \<and> all_positive (output (crawl_from [1 \<mapsto> known 9223372036854775807]))
 \<and> sint (Score (known 9223372036854775807) + 1) \<le> 0
 \<and> fst (updateNode (answering_at (clock 2000) peer_enr) peer
      (crawl_from [1 \<mapsto> known 9223372036854775807])) = nodeRemoved
 \<and> output (snd (updateNode (answering_at (clock 2000) peer_enr) peer
      (crawl_from [1 \<mapsto> known 9223372036854775807]))) (node_ID peer) = None"
proof -
  let ?calls = "[(failing_at (clock 2000), peer), (answering_at (clock 3000) peer_enr, peer)]"
  have a: "all_positive (output (crawl_from [1 \<mapsto> known 1]))"
    by (simp add: all_positive_def crawl_from_def newCrawler_def known_def)
  have a': "all_positive (output (crawl_from [1 \<mapsto> known 9223372036854775807]))"
    by (simp add: all_positive_def crawl_from_def newCrawler_def known_def)
  have b: "fst (updateNodes ?calls (crawl_from [1 \<mapsto> known 1])) = [nodeRemoved, nodeAdded]"
    by (simp add: sample_defs updateNode_def lookup_def RequestENR_def
        int_quo_def signed_divide_int_def zero_nodeJSON_def IsZero_def)
  have h: "output (crawl_from [1 \<mapsto> known 1]) (node_ID peer) = Some (known 1)
     \<and> \<not> Since (since_now (failing_at (clock 2000))) (LastCheck (known 1))
          < revalidateInterval (crawl_from [1 \<mapsto> known 1])
     \<and> sint (Score (known 1)) div 2 \<le> 0"
    by (simp add: sample_defs)
  have h': "output (crawl_from [1 \<mapsto> known 9223372036854775807]) (node_ID peer)
        = Some (known 9223372036854775807)
     \<and> \<not> Since (since_now (answering_at (clock 2000) peer_enr))
            (LastCheck (known 9223372036854775807))
          < revalidateInterval (crawl_from [1 \<mapsto> known 9223372036854775807])
     \<and> sint (Score (known 9223372036854775807) + 1) \<le> 0"
    by (simp add: sample_defs)
  note t1 = updateNodes_score_invariant [OF a, of ?calls]
  note t2 = updateNodes_score_invariant [OF a', of "[]"]
  from t1 have k2: "all_positive (output (snd (updateNodes (take 2 ?calls)
        (crawl_from [1 \<mapsto> known 1]))))" by blast
  from t1 [THEN conjunct2, rule_format, of 0 peer "known 1" "failing_at (clock 2000)"] h
  have r1: "fst (updateNode (failing_at (clock 2000)) peer (crawl_from [1 \<mapsto> known 1])) = nodeRemoved
     \<and> output (snd (updateNode (failing_at (clock 2000)) peer (crawl_from [1 \<mapsto> known 1])))
          (node_ID peer) = None"
    by (simp add: failing_at_def)
  from t2 [THEN conjunct2, rule_format, of 0 peer "known 9223372036854775807"
      "answering_at (clock 2000) peer_enr"] h'
  have r2: "fst (updateNode (answering_at (clock 2000) peer_enr) peer
      (crawl_from [1 \<mapsto> known 9223372036854775807])) = nodeRemoved
     \<and> output (snd (updateNode (answering_at (clock 2000) peer_enr) peer
      (crawl_from [1 \<mapsto> known 9223372036854775807]))) (node_ID peer) = None"
    by (simp add: answering_at_def)
  show ?thesis
    using a a' b h h' k2 r1 r2 by blast
qed

text \<open>
  As stated, without the condition on the starting set, C1 fails: the output set starts
  as a copy of the input set, and a record of the input set without a positive score
  stays in the output set through every call that is about another node.
\<close>

theorem updateNodes_score_invariant_counterexample:
  "output (snd (updateNodes [(answering_at (clock 2000) (Node 2 5 ''enr''), Node 2 0 ''enode'')]
      (crawl_from [1 \<mapsto> listed]))) 1 = Some listed
 \<and> \<not> 0 < sint (Score listed)"
  by (simp add: sample_defs updateNode_def lookup_def RequestENR_def zero_nodeJSON_def
        IsZero_def)

text \<open>
  C2. A candidate that has a record in the output set, checked less than
  \<open>revalidateInterval\<close> ago, is classified \<open>nodeSkipRecent\<close>; the crawler after the call
  is the crawler before it: no request reaches the resolver, and the record and the whole
  output set are unchanged.
\<close>

theorem updateNode_skip_recent:
  assumes "output c (node_ID n) = Some r"
      and "Since (since_now e) (LastCheck r) < revalidateInterval c"
  shows "updateNode e n c = (nodeSkipRecent, c)
       \<and> requests (disc (snd (updateNode e n c))) = requests (disc c)
       \<and> output (snd (updateNode e n c)) = output c
       \<and> output (snd (updateNode e n c)) (node_ID n) = Some r"
  using assms by (simp add: updateNode_def lookup_def)

theorem updateNode_skip_recent_witness:
  "output (crawl_from [1 \<mapsto> known 4]) (node_ID peer) = Some (known 4)
 \<and> Since (since_now (failing_at (clock 1300))) (LastCheck (known 4))
      < revalidateInterval (crawl_from [1 \<mapsto> known 4])
 \<and> updateNode (failing_at (clock 1300)) peer (crawl_from [1 \<mapsto> known 4]) =
      (nodeSkipRecent, crawl_from [1 \<mapsto> known 4])
 \<and> requests (disc (snd (updateNode (failing_at (clock 1300)) peer
      (crawl_from [1 \<mapsto> known 4])))) = []"
  using updateNode_skip_recent [of "crawl_from [1 \<mapsto> known 4]" peer "known 4"
    "failing_at (clock 1300)"]
  by (simp add: sample_defs)

text \<open>
  C3. A candidate whose identity has no record in the output set and whose resolution
  succeeds is classified \<open>nodeAdded\<close>, and the record stored for it has
  \<open>FirstResponse = LastResponse = LastCheck\<close>, the truncated current time, \<open>Score = 1\<close>,
  and \<open>N\<close> and \<open>Seq\<close> taken from the resolved node.
\<close>

theorem updateNode_new_success:
  assumes "output c (node_ID n) = None"
      and "enr_reply e = Inr nn"
  shows "fst (updateNode e n c) = nodeAdded
       \<and> output (snd (updateNode e n c)) (node_ID n) =
           Some \<lparr>Seq = node_Seq nn, N = Some nn, Score = 1,
                 FirstResponse = truncNow (trunc_now e),
                 LastResponse = truncNow (trunc_now e),
                 LastCheck = truncNow (trunc_now e)\<rparr>"
  using assms
  by (simp add: updateNode_def lookup_def zero_nodeJSON_def RequestENR_def IsZero_def Let_def)

theorem updateNode_new_success_witness:
  "output (crawl_from Map.empty) (node_ID peer) = None
 \<and> enr_reply (answering_at (clock 2000) peer_enr) = Inr peer_enr
 \<and> fst (updateNode (answering_at (clock 2000) peer_enr) peer (crawl_from Map.empty)) = nodeAdded
 \<and> output (snd (updateNode (answering_at (clock 2000) peer_enr) peer (crawl_from Map.empty)))
      (node_ID peer) =
      Some \<lparr>Seq = 3, N = Some peer_enr, Score = 1, FirstResponse = clock 2000,
            LastResponse = clock 2000, LastCheck = clock 2000\<rparr>"
  using updateNode_new_success [of "crawl_from Map.empty" peer
    "answering_at (clock 2000) peer_enr" peer_enr]
  by (simp add: sample_defs)

text \<open>
  C4. A candidate whose resolution fails and whose record has score 0 is classified
  \<open>nodeSkipIncompat\<close> and should be absent from the output set after the call. The code
  returns before the block that stores or deletes: a record with score 0 that the input
  set brought into the output set is still there after the failed probe.
\<close>

theorem updateNode_skip_incompat_record_stays:
  "output (crawl_from [1 \<mapsto> listed]) = [1 \<mapsto> listed]
 \<and> Score listed = 0
 \<and> updateNode (failing_at (clock 2000)) peer (crawl_from [1 \<mapsto> listed]) =
      (nodeSkipIncompat, (crawl_from [1 \<mapsto> listed])\<lparr>disc := \<lparr>requests = [peer]\<rparr>\<rparr>)
 \<and> output (snd (updateNode (failing_at (clock 2000)) peer (crawl_from [1 \<mapsto> listed])))
      (node_ID peer) = Some listed"
  by (simp add: sample_defs updateNode_def lookup_def RequestENR_def)

text \<open>
  C5. A failed probe of a record with a nonzero score halves the score, truncating toward
  zero: the record is stored with the halved score when that is positive and deleted,
  classified \<open>nodeRemoved\<close>, when it is not. A positive score never becomes negative.
  From score 4, three failed probes, none skipped as recent, leave the scores 2 and 1
  and then no record: 4, 2, 1, 0 (removed).
\<close>

theorem updateNode_failure_halves:
  assumes rec: "output c (node_ID n) = Some r"
      and nz: "Score r \<noteq> 0"
      and due: "\<not> Since (since_now e) (LastCheck r) < revalidateInterval c"
      and fail: "enr_reply e = Inl err"
  shows "(if 0 < sgn (sint (Score r)) * (\<bar>sint (Score r)\<bar> div 2)
          then fst (updateNode e n c) = nodeUpdated
             \<and> map_option (\<lambda>r'. sint (Score r')) (output (snd (updateNode e n c)) (node_ID n)) =
                 Some (sgn (sint (Score r)) * (\<bar>sint (Score r)\<bar> div 2))
          else fst (updateNode e n c) = nodeRemoved
             \<and> output (snd (updateNode e n c)) (node_ID n) = None)
       \<and> (0 < sint (Score r) \<longrightarrow>
            0 \<le> sgn (sint (Score r)) * (\<bar>sint (Score r)\<bar> div 2)
          \<and> sgn (sint (Score r)) * (\<bar>sint (Score r)\<bar> div 2) < sint (Score r))
       \<and> (sint (Score r) = 4
            \<and> enr_reply e2 = Inl err2 \<and> enr_reply e3 = Inl err3
            \<and> \<not> Since (since_now e2) (truncNow (trunc_now e)) < revalidateInterval c
            \<and> \<not> Since (since_now e3) (truncNow (trunc_now e2)) < revalidateInterval c \<longrightarrow>
            map_option (\<lambda>r'. sint (Score r'))
              (output (snd (updateNodes [(e, n)] c)) (node_ID n)) = Some 2
          \<and> map_option (\<lambda>r'. sint (Score r'))
              (output (snd (updateNodes [(e, n), (e2, n)] c)) (node_ID n)) = Some 1
          \<and> output (snd (updateNodes [(e, n), (e2, n), (e3, n)] c)) (node_ID n) = None
          \<and> fst (updateNodes [(e, n), (e2, n), (e3, n)] c) =
              [nodeUpdated, nodeUpdated, nodeRemoved])"
proof -
  let ?h = "sgn (sint (Score r)) * (\<bar>sint (Score r)\<bar> div 2)"
  have h: "sint (Score r) sdiv 2 = ?h"
    by (simp add: signed_divide_int_def)
  note st = failure_step [OF rec nz due fail]
  have one: "if 0 < ?h
          then fst (updateNode e n c) = nodeUpdated
             \<and> map_option (\<lambda>r'. sint (Score r')) (output (snd (updateNode e n c)) (node_ID n)) =
                 Some ?h
          else fst (updateNode e n c) = nodeRemoved
             \<and> output (snd (updateNode e n c)) (node_ID n) = None"
    using st(1,2) h by (simp add: sint_int_quo_2)
  have two: "0 < sint (Score r) \<longrightarrow> 0 \<le> ?h \<and> ?h < sint (Score r)"
    by (simp add: sgn_if) linarith
  have three: "map_option (\<lambda>r'. sint (Score r'))
              (output (snd (updateNodes [(e, n)] c)) (node_ID n)) = Some 2
          \<and> map_option (\<lambda>r'. sint (Score r'))
              (output (snd (updateNodes [(e, n), (e2, n)] c)) (node_ID n)) = Some 1
          \<and> output (snd (updateNodes [(e, n), (e2, n), (e3, n)] c)) (node_ID n) = None
          \<and> fst (updateNodes [(e, n), (e2, n), (e3, n)] c) =
              [nodeUpdated, nodeUpdated, nodeRemoved]"
    if four: "sint (Score r) = 4"
      and fail2: "enr_reply e2 = Inl err2" and fail3: "enr_reply e3 = Inl err3"
      and due2: "\<not> Since (since_now e2) (truncNow (trunc_now e)) < revalidateInterval c"
      and due3: "\<not> Since (since_now e3) (truncNow (trunc_now e2)) < revalidateInterval c"
  proof -
    define c1 where "c1 = snd (updateNode e n c)"
    define r1 where "r1 = r\<lparr>LastCheck := truncNow (trunc_now e), Score := int_quo (Score r) 2\<rparr>"
    have s1: "sint (Score r1) = 2"
      by (simp add: r1_def sint_int_quo_2 four signed_divide_int_def)
    have f1: "fst (updateNode e n c) = nodeUpdated"
      using st(1) by (simp add: four signed_divide_int_def)
    have o1: "output c1 (node_ID n) = Some r1"
      using st(2) by (simp add: c1_def r1_def four signed_divide_int_def)
    have i1: "revalidateInterval c1 = revalidateInterval c"
      using st(3) by (simp add: c1_def)
    have nz1: "Score r1 \<noteq> 0" using s1 by auto
    have d1: "\<not> Since (since_now e2) (LastCheck r1) < revalidateInterval c1"
      using due2 by (simp add: r1_def i1)
    note st2 = failure_step [OF o1 nz1 d1 fail2]
    define c2 where "c2 = snd (updateNode e2 n c1)"
    define r2 where "r2 = r1\<lparr>LastCheck := truncNow (trunc_now e2), Score := int_quo (Score r1) 2\<rparr>"
    have s2: "sint (Score r2) = 1"
      by (simp add: r2_def sint_int_quo_2 s1 signed_divide_int_def)
    have f2: "fst (updateNode e2 n c1) = nodeUpdated"
      using st2(1) by (simp add: s1 signed_divide_int_def)
    have o2: "output c2 (node_ID n) = Some r2"
      using st2(2) by (simp add: c2_def r2_def s1 signed_divide_int_def)
    have i2: "revalidateInterval c2 = revalidateInterval c"
      using st2(3) by (simp add: c2_def i1)
    have nz2: "Score r2 \<noteq> 0" using s2 by auto
    have d2: "\<not> Since (since_now e3) (LastCheck r2) < revalidateInterval c2"
      using due3 by (simp add: r2_def i2)
    note st3 = failure_step [OF o2 nz2 d2 fail3]
    have f3: "fst (updateNode e3 n c2) = nodeRemoved"
      using st3(1) by (simp add: s2 signed_divide_int_def)
    have o3: "output (snd (updateNode e3 n c2)) (node_ID n) = None"
      using st3(2) by (simp add: s2 signed_divide_int_def)
    show ?thesis
      using f1 f2 f3 o1 o2 o3 s1 s2
      by (simp add: split_def Let_def c1_def [symmetric] c2_def [symmetric])
  qed
  show ?thesis
    using one two three by blast
qed

theorem updateNode_failure_halves_witness:
  "output (crawl_from [1 \<mapsto> known 4]) (node_ID peer) = Some (known 4)
 \<and> Score (known 4) \<noteq> 0
 \<and> \<not> Since (since_now (failing_at (clock 2000))) (LastCheck (known 4))
      < revalidateInterval (crawl_from [1 \<mapsto> known 4])
 \<and> enr_reply (failing_at (clock 2000)) = Inl ''timeout''
 \<and> sint (Score (known 4)) = 4
 \<and> enr_reply (failing_at (clock 3000)) = Inl ''timeout''
 \<and> enr_reply (failing_at (clock 4000)) = Inl ''timeout''
 \<and> \<not> Since (since_now (failing_at (clock 3000))) (truncNow (trunc_now (failing_at (clock 2000))))
      < revalidateInterval (crawl_from [1 \<mapsto> known 4])
 \<and> \<not> Since (since_now (failing_at (clock 4000))) (truncNow (trunc_now (failing_at (clock 3000))))
      < revalidateInterval (crawl_from [1 \<mapsto> known 4])
 \<and> fst (updateNodes [(failing_at (clock 2000), peer), (failing_at (clock 3000), peer),
                      (failing_at (clock 4000), peer)] (crawl_from [1 \<mapsto> known 4])) =
      [nodeUpdated, nodeUpdated, nodeRemoved]
 \<and> output (snd (updateNodes [(failing_at (clock 2000), peer), (failing_at (clock 3000), peer),
                      (failing_at (clock 4000), peer)] (crawl_from [1 \<mapsto> known 4])))
      (node_ID peer) = None"
  using updateNode_failure_halves [of "crawl_from [1 \<mapsto> known 4]" peer "known 4"
    "failing_at (clock 2000)" "''timeout''" "failing_at (clock 3000)" "''timeout''"
    "failing_at (clock 4000)" "''timeout''"]
  by (simp add: sample_defs)

text \<open>
  C6. After a call that reaches the resolver, the \<open>LastCheck\<close> of the candidate's record
  in the output set should be the truncated current time. The code sets it on its copy
  of the record and returns early when the request fails at score 0: a record with
  score 0 from the input set keeps its old \<open>LastCheck\<close> in the output set.
\<close>

theorem updateNode_skip_incompat_stale_LastCheck:
  "requests (disc (snd (updateNode (failing_at (clock 2000)) peer (crawl_from [1 \<mapsto> listed]))))
     = [peer]
 \<and> truncNow (trunc_now (failing_at (clock 2000))) = clock 2000
 \<and> map_option LastCheck
      (output (snd (updateNode (failing_at (clock 2000)) peer (crawl_from [1 \<mapsto> listed])))
         (node_ID peer)) = Some 0
 \<and> clock 2000 \<noteq> 0"
  by (simp add: sample_defs updateNode_def lookup_def RequestENR_def)

text \<open>
  C10. A failed probe of a record with a score of at least 1 changes only \<open>Score\<close>,
  halved, and \<open>LastCheck\<close> of that record, which stays in the output set exactly when the
  halved score is positive; \<open>N\<close>, \<open>Seq\<close>, \<open>FirstResponse\<close> and \<open>LastResponse\<close> and the
  records of all other identities are as before.
\<close>

theorem updateNode_failure_frame:
  assumes "output c (node_ID n) = Some r"
      and "1 \<le> sint (Score r)"
      and "\<not> Since (since_now e) (LastCheck r) < revalidateInterval c"
      and "enr_reply e = Inl err"
  shows "output (snd (updateNode e n c)) (node_ID n) =
           (if 0 < sint (Score r) div 2
            then Some (r\<lparr>Score := word_of_int (sint (Score r) div 2),
                        LastCheck := truncNow (trunc_now e)\<rparr>)
            else None)
       \<and> (\<forall>k. k \<noteq> node_ID n \<longrightarrow> output (snd (updateNode e n c)) k = output c k)"
proof -
  have nz: "Score r \<noteq> 0" using assms(2) by auto
  have h: "sint (Score r) sdiv 2 = sint (Score r) div 2"
    using assms(2) by (simp add: sdiv_2_eq)
  show ?thesis
    using failure_step(2) [OF assms(1) nz assms(3) assms(4)] assms(2)
    by (simp add: h int_quo_def)
qed

theorem updateNode_failure_frame_witness:
  "output (crawl_from [1 \<mapsto> known 4]) (node_ID peer) = Some (known 4)
 \<and> 1 \<le> sint (Score (known 4))
 \<and> \<not> Since (since_now (failing_at (clock 2000))) (LastCheck (known 4))
      < revalidateInterval (crawl_from [1 \<mapsto> known 4])
 \<and> enr_reply (failing_at (clock 2000)) = Inl ''timeout''
 \<and> output (snd (updateNode (failing_at (clock 2000)) peer (crawl_from [1 \<mapsto> known 4])))
      (node_ID peer) =
      Some \<lparr>Seq = 3, N = Some peer_enr, Score = 2, FirstResponse = clock 10,
            LastResponse = clock 1000, LastCheck = clock 2000\<rparr>
 \<and> (2 :: ID) \<noteq> node_ID peer
 \<and> output (snd (updateNode (failing_at (clock 2000)) peer (crawl_from [1 \<mapsto> known 4]))) 2 =
      output (crawl_from [1 \<mapsto> known 4]) 2"
  using updateNode_failure_frame [of "crawl_from [1 \<mapsto> known 4]" peer "known 4"
    "failing_at (clock 2000)" "''timeout''"]
  by (simp add: sample_defs)

section \<open>Invariants of run\<close>

lemma fold_max_ge: "x \<in> set xs \<Longrightarrow> x \<le> fold max xs (a :: nat)"
proof (induction xs arbitrary: a)
  case Nil
  then show ?case by simp
next
  case (Cons y ys)
  have mono: "b \<le> fold max ys b" for b :: nat
    by (induction ys arbitrary: b) (auto intro: order_trans [OF max.cobounded2])
  show ?case
  proof (cases "x = y")
    case True
    have "y \<le> max y a" by simp
    also have "\<dots> \<le> fold max ys (max y a)" by (rule mono)
    finally show ?thesis using True by simp
  next
    case False
    then have "x \<in> set ys" using Cons.prems by simp
    from Cons.IH [OF this] show ?thesis by simp
  qed
qed

lemma IterNodes_fresh: "IterNodes its \<notin> set its"
  using fold_max_ge [of "IterNodes its" its 0] by (auto simp add: IterNodes_def)

lemma newCrawler_inputIter:
  "inputIter (newCrawler inp d its) = last (iters (newCrawler inp d its))
 \<and> inputIter (newCrawler inp d its) \<notin> set its
 \<and> length (iters (newCrawler inp d its)) = Suc (length its)"
  by (simp add: newCrawler_def IterNodes_fresh)

lemma unfinished_replicate: "unfinished (replicate k AtNext) = k"
  by (simp add: unfinished_def)

lemma unfinished_Nil [simp]: "unfinished [] = 0"
  by (simp add: unfinished_def)

lemma unfinished_Cons [simp]:
  "unfinished (w # ws) = (if w = Finished then unfinished ws else Suc (unfinished ws))"
  by (simp add: unfinished_def)

lemma unfinished_update:
  "i < length ws \<Longrightarrow>
   unfinished (ws[i := w]) + (if ws ! i = Finished then 0 else 1) =
   unfinished ws + (if w = Finished then 0 else 1)"
proof (induction ws arbitrary: i)
  case Nil
  then show ?case by simp
next
  case (Cons a ws)
  show ?case
  proof (cases i)
    case 0
    then show ?thesis by simp
  next
    case (Suc j)
    then have "j < length ws" using Cons.prems by simp
    from Cons.IH [OF this] show ?thesis using Suc by (auto split: if_splits)
  qed
qed

lemma unfinished_zero: "unfinished ws = 0 \<longleftrightarrow> (\<forall>i<length ws. ws ! i = Finished)"
proof (induction ws)
  case Nil
  then show ?case by simp
next
  case (Cons a ws)
  show ?case
    by (auto simp add: Cons.IH nth_Cons split: nat.splits)
qed

lemma unfinished_same:
  "i < length ws \<Longrightarrow> ws ! i \<noteq> Finished \<Longrightarrow> w \<noteq> Finished \<Longrightarrow>
   unfinished (ws[i := w]) = unfinished ws"
  using unfinished_update [of i ws w] by simp

lemma unfinished_finish:
  "i < length ws \<Longrightarrow> ws ! i \<noteq> Finished \<Longrightarrow>
   Suc (unfinished (ws[i := Finished])) = unfinished ws"
  using unfinished_update [of i ws Finished] by simp

lemma updateNode_frame:
  "iters (snd (updateNode e n c)) = iters c
 \<and> inputIter (snd (updateNode e n c)) = inputIter c
 \<and> closed (snd (updateNode e n c)) = closed c"
  by (auto simp add: updateNode_def RequestENR_def Let_def split: prod.splits sum.splits)

lemma tally_fields:
  "crawler (tally st s) = crawler s" "workers (tally st s) = workers s"
  "doneCh (tally st s) = doneCh s" "timeoutCh (tally st s) = timeoutCh s"
  "liveIters (tally st s) = liveIters s" "phase (tally st s) = phase s"
  "started (tally st s) = started s" "now (tally st s) = now s"
  "replayed_at (tally st s) = replayed_at s" "left_loop (tally st s) = left_loop s"
  "closed_iters (tally st s) = closed_iters s"
  by (cases st; simp add: tally_def)+

lemma run_steps_invariant:
  assumes "run_steps T as s0 = Some s"
      and "P s0"
      and "\<And>s a s'. P s \<Longrightarrow> run_step T s a = Some s' \<Longrightarrow> P s'"
  shows "P s"
  using assms(1,2)
proof (induction as arbitrary: s0)
  case Nil
  then show ?case by simp
next
  case (Cons a as)
  then obtain s1 where s1: "run_step T s0 a = Some s1" and r: "run_steps T as s1 = Some s"
    by (auto split: option.splits)
  from assms(3) [OF Cons.prems(2) s1] have "P s1" .
  from Cons.IH [OF r this] show ?case .
qed

lemma unfinished_finish_int:
  "i < length ws \<Longrightarrow> ws ! i \<noteq> Finished \<Longrightarrow>
   int (unfinished (ws[i := Finished])) = int (unfinished ws) - 1"
  using unfinished_finish [of i ws] by linarith

lemma counted_start: "counted (run_start c t)"
  by (simp add: counted_def run_start_def unfinished_replicate)

lemma counted_step:
  assumes "counted s" and "run_step T s a = Some s'"
  shows "counted s'"
  using assms
  by (cases a;
      clarsimp simp add: run_step_def split_def Let_def split: if_splits worker.splits list.splits;
      simp add: counted_def tally_fields updateNode_frame unfinished_same
        unfinished_finish_int)

lemma phased_start: "phased (run_start c t)"
  by (simp add: phased_def run_start_def)

lemma timed_start: "timed T (run_start c t)"
  by (simp add: timed_def run_start_def)

lemma unclosed_start: "\<not> closed c \<Longrightarrow> unclosed (run_start c t)"
  by (simp add: unclosed_def run_start_def)

lemma phased_step:
  assumes "phased s" and "run_step T s a = Some s'"
  shows "phased s'"
  using assms
  by (cases a;
      clarsimp simp add: run_step_def split_def Let_def split: if_splits worker.splits list.splits;
      simp add: phased_def tally_fields updateNode_frame)

lemma timed_step:
  assumes "timed T s" and "run_step T s a = Some s'"
  shows "timed T s'"
  using assms
  by (cases a;
      clarsimp simp add: run_step_def split_def Let_def split: if_splits worker.splits list.splits;
      auto simp add: timed_def tally_fields updateNode_frame)

lemma unclosed_step:
  assumes "unclosed s" and "run_step T s a = Some s'"
  shows "unclosed s'"
  using assms
  by (cases a;
      clarsimp simp add: run_step_def split_def Let_def split: if_splits worker.splits list.splits;
      simp add: unclosed_def tally_fields updateNode_frame)

lemma fixed_step:
  assumes "iters (crawler s) = its \<and> started s = t0" and "run_step T s a = Some s'"
  shows "iters (crawler s') = its \<and> started s' = t0"
  using assms
  by (cases a;
      clarsimp simp add: run_step_def split_def Let_def tally_fields updateNode_frame
        split: if_splits worker.splits list.splits)

lemma liveIters_step:
  assumes "run_step T s a = Some s'"
  shows "liveIters s' = liveIters s - (if a = Recv_done \<or> a = Drain then 1 else 0)"
  using assms
  by (cases a;
      clarsimp simp add: run_step_def split_def Let_def tally_fields updateNode_frame
        split: if_splits worker.splits list.splits)

lemma run_steps_counted:
  "run_steps T as (run_start c t) = Some s \<Longrightarrow> counted s"
  by (rule run_steps_invariant [where P = counted]) (auto intro: counted_start counted_step)

lemma run_steps_phased:
  "run_steps T as (run_start c t) = Some s \<Longrightarrow> phased s"
  by (rule run_steps_invariant [where P = phased]) (auto intro: phased_start phased_step)

lemma run_steps_timed:
  "run_steps T as (run_start c t) = Some s \<Longrightarrow> timed T s"
  by (rule run_steps_invariant [where P = "timed T"]) (auto intro: timed_start timed_step)

lemma run_steps_unclosed:
  "\<not> closed c \<Longrightarrow> run_steps T as (run_start c t) = Some s \<Longrightarrow> unclosed s"
  by (rule run_steps_invariant [where P = unclosed]) (auto intro: unclosed_start unclosed_step)

lemma run_steps_fixed:
  "run_steps T as (run_start c t) = Some s \<Longrightarrow> iters (crawler s) = iters c \<and> started s = t"
proof (rule run_steps_invariant
    [where P = "\<lambda>s. iters (crawler s) = iters c \<and> started s = t"])
  show "iters (crawler (run_start c t)) = iters c \<and> started (run_start c t) = t"
    by (simp add: run_start_def)
qed (assumption, rule fixed_step)

lemma run_steps_liveIters:
  "run_steps T as s0 = Some s \<Longrightarrow>
   liveIters s = liveIters s0 - int (count_list as Recv_done) - int (count_list as Drain)"
proof (induction as arbitrary: s0)
  case Nil
  then show ?case by simp
next
  case (Cons a as)
  then obtain s1 where s1: "run_step T s0 a = Some s1" and r: "run_steps T as s1 = Some s"
    by (auto split: option.splits)
  show ?case
    using Cons.IH [OF r] liveIters_step [OF s1] by auto
qed

text \<open>
  The deferred send of a worker never waits: there is room in \<open>doneCh\<close> whenever a worker
  is about to send.
\<close>

lemma unfinished_pos: "i < length ws \<Longrightarrow> ws ! i \<noteq> Finished \<Longrightarrow> 0 < unfinished ws"
  using unfinished_zero [of ws] by auto

lemma Send_done_enabled:
  assumes "run_steps T as (run_start c t) = Some s"
      and "i < length (workers s)"
      and "workers s ! i = Exiting"
  shows "run_step T s (Send_done i) =
           Some (s\<lparr>workers := (workers s)[i := Finished],
                   doneCh := doneCh s @ [iters c ! i]\<rparr>)"
proof -
  note co = run_steps_counted [OF assms(1)]
  note fx = run_steps_fixed [OF assms(1)]
  have "liveIters s \<le> int (length (iters c))"
    using run_steps_liveIters [OF assms(1)] by (simp add: run_start_def)
  moreover have "0 < unfinished (workers s)"
    using unfinished_pos [OF assms(2)] assms(3) by simp
  ultimately have "length (doneCh s) < length (iters c)"
    using co by (simp add: counted_def)
  then show ?thesis
    using assms(2,3) co fx by (simp add: run_step_def counted_def)
qed

text \<open>
  How a worker came to leave its loop can be read off the steps taken; and without a
  timeout no worker leaves it through \<open>c.closed\<close> and the timeout case is never taken.
\<close>

lemma run_steps_snoc:
  "run_steps T (as @ [a]) s0 =
     (case run_steps T as s0 of None \<Rightarrow> None | Some s1 \<Rightarrow> run_step T s1 a)"
  by (induction as arbitrary: s0) (auto split: option.splits)

lemma exited_step:
  assumes "run_step T s a = Some s'"
      and "workers s' ! i = Exiting \<or> workers s' ! i = Finished"
  shows "workers s ! i = Exiting \<or> workers s ! i = Finished
       \<or> a = Next_false i \<or> a = See_closed i"
  using assms
  by (cases a;
      clarsimp simp add: run_step_def split_def Let_def tally_fields nth_list_update
        split: if_splits worker.splits list.splits)

lemma See_closed_step:
  assumes "run_step T s (See_closed i) = Some s'"
  shows "closed (crawler s) \<and> i < length (workers s) \<and> workers s ! i \<noteq> Finished"
  using assms
  by (auto simp add: run_step_def split: if_splits worker.splits)

lemma exits_traced:
  "i < length (iters c) \<Longrightarrow>
   run_steps T as (run_start c t) = Some s \<Longrightarrow>
   workers s ! i = Exiting \<or> workers s ! i = Finished \<Longrightarrow>
   Next_false i \<in> set as \<or> See_closed i \<in> set as"
proof (induction as arbitrary: s rule: rev_induct)
  case Nil
  then show ?case
    by (auto simp add: run_start_def)
next
  case (snoc a as)
  from snoc.prems(2) obtain s1
    where s1: "run_steps T as (run_start c t) = Some s1" and st: "run_step T s1 a = Some s"
    by (auto simp add: run_steps_snoc split: option.splits)
  from exited_step [OF st snoc.prems(3)] snoc.IH [OF snoc.prems(1) s1] show ?case by auto
qed

lemma run_exhausted:
  assumes "timeout \<le> 0"
      and "\<not> closed c"
      and "run_steps timeout as (run_start c t) = Some s"
  shows "\<not> timeoutCh s
       \<and> (\<forall>t'. left_loop s \<noteq> Some (TimedOut, t'))
       \<and> (phase s \<noteq> InLoop \<longrightarrow>
            (\<exists>t'. left_loop s = Some (Exhausted, t'))
          \<and> liveIters s = 0
          \<and> (\<forall>i<length (iters c). workers s ! i = Finished))
       \<and> (phase s = AfterLoop \<longrightarrow> \<not> closed (crawler s))
       \<and> (closed (crawler s) \<longrightarrow> phase s \<noteq> InLoop)
       \<and> length (workers s) = length (iters c)"
proof -
  note ti = run_steps_timed [OF assms(3)]
  note ph = run_steps_phased [OF assms(3)]
  note co = run_steps_counted [OF assms(3)]
  note un = run_steps_unclosed [OF assms(2,3)]
  note fx = run_steps_fixed [OF assms(3)]
  have a: "\<not> timeoutCh s"
    using ti assms(1) by (auto simp add: timed_def)
  have b: "\<forall>t'. left_loop s \<noteq> Some (TimedOut, t')"
    using ti assms(1) by (auto simp add: timed_def)
  have c: "(\<exists>t'. left_loop s = Some (Exhausted, t')) \<and> liveIters s = 0
         \<and> (\<forall>i<length (iters c). workers s ! i = Finished)" if "phase s \<noteq> InLoop"
  proof -
    from ph that obtain v t' where l: "left_loop s = Some (v, t')"
      by (auto simp add: phased_def)
    with b have v: "v = Exhausted" by (cases v) auto
    with l ph have z: "liveIters s = 0" by (auto simp add: phased_def)
    with co have "unfinished (workers s) = 0" by (auto simp add: counted_def)
    then have "\<forall>i<length (workers s). workers s ! i = Finished"
      by (simp add: unfinished_zero)
    with co fx l v z show ?thesis by (auto simp add: counted_def)
  qed
  have d: "phase s = AfterLoop \<longrightarrow> \<not> closed (crawler s)"
    using un by (auto simp add: unclosed_def)
  have e: "closed (crawler s) \<longrightarrow> phase s \<noteq> InLoop"
    using un by (auto simp add: unclosed_def)
  have f: "length (workers s) = length (iters c)"
    using co fx by (simp add: counted_def)
  show ?thesis using a b c d e f by blast
qed

lemma no_See_closed:
  assumes "timeout \<le> 0"
      and "\<not> closed c"
  shows "run_steps timeout as (run_start c t) = Some s \<Longrightarrow> See_closed i \<notin> set as"
proof (induction as arbitrary: s rule: rev_induct)
  case Nil
  then show ?case by simp
next
  case (snoc a as)
  from snoc.prems obtain s1
    where s1: "run_steps timeout as (run_start c t) = Some s1"
      and st: "run_step timeout s1 a = Some s"
    by (auto simp add: run_steps_snoc split: option.splits)
  have "a \<noteq> See_closed i"
  proof
    assume a: "a = See_closed i"
    from See_closed_step [OF st [unfolded a]]
    have cl: "closed (crawler s1)" and i: "i < length (workers s1)"
      and nf: "workers s1 ! i \<noteq> Finished" by auto
    from run_exhausted [OF assms s1] cl i have "workers s1 ! i = Finished" by auto
    with nf show False by simp
  qed
  with snoc.IH [OF s1] show ?case by simp
qed

lemma no_Time_out:
  assumes "timeout \<le> 0"
      and "\<not> closed c"
  shows "run_steps timeout as (run_start c t) = Some s \<Longrightarrow> Time_out \<notin> set as"
proof (induction as arbitrary: s rule: rev_induct)
  case Nil
  then show ?case by simp
next
  case (snoc a as)
  from snoc.prems obtain s1
    where s1: "run_steps timeout as (run_start c t) = Some s1"
      and st: "run_step timeout s1 a = Some s"
    by (auto simp add: run_steps_snoc split: option.splits)
  have "a \<noteq> Time_out"
  proof
    assume "a = Time_out"
    with st have "timeoutCh s1"
      by (auto simp add: run_step_def split: if_splits)
    with run_exhausted [OF assms s1] show False by simp
  qed
  with snoc.IH [OF s1] show ?case by simp
qed

section \<open>Properties of run\<close>

text \<open>The sample runs, evaluated.\<close>

lemmas run_defs = run_step_def run_start_def seeded_def slow_replay_def full_crawl_def
  tally_def updateNode_def lookup_def RequestENR_def int_quo_def signed_divide_int_def
  IterNodes_def zero_nodeJSON_def IsZero_def

lemma slow_replay_run:
  "map_option (\<lambda>s. (phase s, replayed_at s, left_loop s, now s, workers s, output (crawler s) 1))
     (run_steps (5 * Second) slow_replay (run_start seeded (clock 2000))) =
   Some (Returned, Some (clock 2010), Some (TimedOut, clock 2010), clock 2010,
         [Finished, Finished],
         Some ((known 4)\<lparr>Score := 2, LastCheck := clock 2010\<rparr>))"
  by (simp add: run_defs sample_defs)

lemma full_crawl_run:
  "map_option (\<lambda>s. (phase s, left_loop s, timeoutCh s, liveIters s, workers s,
                    output (crawler s) 1, output (crawler s) 2))
     (run_steps 0 full_crawl (run_start seeded (clock 2000))) =
   Some (Returned, Some (Exhausted, clock 2001 + 750000000), False, 0, [Finished, Finished],
         Some ((known 4)\<lparr>Score := 2, LastCheck := clock 2000\<rparr>),
         Some \<lparr>Seq = 5, N = Some (Node 2 5 ''enr''), Score = 1,
               FirstResponse = clock 2000, LastResponse = clock 2000,
               LastCheck = clock 2000\<rparr>)"
  by (simp add: run_defs sample_defs)

lemma full_crawl_left:
  "map_option (\<lambda>s. (phase s, left_loop s, closed (crawler s), workers s))
     (run_steps 0 (take 11 full_crawl) (run_start seeded (clock 2000))) =
   Some (AfterLoop, Some (Exhausted, clock 2001 + 750000000), False, [Finished, Finished])"
  by (simp add: run_defs sample_defs)

text \<open>
  C7. Amended: the timer of duration \<open>timeout\<close> runs from the call of \<open>run\<close>; what the
  completion of the replay iterator starts is only the listening for it. With
  \<open>timeout > 0\<close> a run that leaves the loop by the timeout does so no earlier than
  \<open>timeout\<close> after the call and no earlier than the completion of the replay: its duration
  is at least the larger of the two, not their sum.
\<close>

theorem run_timeout_not_before:
  assumes "0 < timeout"
      and "run_steps timeout as (run_start c t) = Some s"
      and "left_loop s = Some (TimedOut, t')"
  shows "t + timeout \<le> t' \<and> (\<exists>tr. replayed_at s = Some tr \<and> t \<le> tr \<and> tr \<le> t') \<and> t' \<le> now s"
  using run_steps_timed [OF assms(2)] run_steps_fixed [OF assms(2)] assms(3)
  by (auto simp add: timed_def)

theorem run_timeout_not_before_witness:
  "0 < 5 * Second
 \<and> map_option left_loop (run_steps (5 * Second) slow_replay (run_start seeded (clock 2000))) =
      Some (Some (TimedOut, clock 2010))
 \<and> map_option replayed_at (run_steps (5 * Second) slow_replay (run_start seeded (clock 2000))) =
      Some (Some (clock 2010))
 \<and> clock 2000 + 5 * Second \<le> clock 2010"
proof -
  obtain s where ev: "run_steps (5 * Second) slow_replay (run_start seeded (clock 2000)) = Some s"
    and l: "left_loop s = Some (TimedOut, clock 2010)"
    and r: "replayed_at s = Some (clock 2010)"
    using slow_replay_run by auto
  have T: "0 < 5 * Second" by (simp add: Second_def)
  from run_timeout_not_before [OF T ev l] ev l r T show ?thesis by simp
qed

text \<open>
  As stated, C7 fails: in the sample run the replay takes ten seconds, longer than the
  timeout of five, and the loop is left by the timeout at the moment the replay iterator
  has reported, not five seconds later.
\<close>

theorem run_timeout_not_before_counterexample:
  "map_option (\<lambda>s. (phase s, replayed_at s, left_loop s, now s))
     (run_steps (5 * Second) slow_replay (run_start seeded (clock 2000))) =
   Some (Returned, Some (clock 2010), Some (TimedOut, clock 2010), clock 2010)
 \<and> clock 2000 + 5 * Second < clock 2010
 \<and> \<not> clock 2010 + 5 * Second \<le> clock 2010"
  using slow_replay_run by (auto simp add: clock_def Second_def)

text \<open>
  C8. With \<open>timeout \<le> 0\<close> the variable \<open>timeoutCh\<close> stays nil and the loop is never left by
  the timeout case: it is left when \<open>liveIters\<close> reaches zero, and then every iterator is
  exhausted: for every worker \<open>it.Next()\<close> has returned false, no worker has left through
  \<open>c.closed\<close>, which is still open, and every worker has returned.
\<close>

theorem run_without_timeout:
  assumes "timeout \<le> 0"
      and "\<not> closed c"
      and "run_steps timeout as (run_start c t) = Some s"
  shows "\<not> timeoutCh s
       \<and> (\<forall>t'. left_loop s \<noteq> Some (TimedOut, t'))
       \<and> (phase s \<noteq> InLoop \<longrightarrow>
            (\<exists>t'. left_loop s = Some (Exhausted, t'))
          \<and> liveIters s = 0
          \<and> (\<forall>i<length (iters c). workers s ! i = Finished)
          \<and> (\<forall>i<length (iters c). Next_false i \<in> set as))
       \<and> (phase s = AfterLoop \<longrightarrow> \<not> closed (crawler s))
       \<and> Time_out \<notin> set as
       \<and> (\<forall>i. See_closed i \<notin> set as)"
proof -
  note ex = run_exhausted [OF assms]
  have nf: "\<forall>i<length (iters c). Next_false i \<in> set as" if "phase s \<noteq> InLoop"
  proof (intro allI impI)
    fix i assume i: "i < length (iters c)"
    with ex that have "workers s ! i = Finished" by simp
    with exits_traced [OF i assms(3)] no_See_closed [OF assms(1,2) assms(3), of i]
    show "Next_false i \<in> set as" by simp
  qed
  show ?thesis
    using ex nf no_Time_out [OF assms(1,2) assms(3)] no_See_closed [OF assms(1,2) assms(3)]
    by simp
qed

theorem run_without_timeout_witness:
  "(0 :: Duration) \<le> 0
 \<and> \<not> closed seeded
 \<and> map_option (\<lambda>s. (phase s, left_loop s, timeoutCh s, liveIters s, workers s))
     (run_steps 0 full_crawl (run_start seeded (clock 2000))) =
   Some (Returned, Some (Exhausted, clock 2001 + 750000000), False, 0, [Finished, Finished])
 \<and> map_option (\<lambda>s. (phase s, left_loop s, closed (crawler s), workers s))
     (run_steps 0 (take 11 full_crawl) (run_start seeded (clock 2000))) =
   Some (AfterLoop, Some (Exhausted, clock 2001 + 750000000), False, [Finished, Finished])
 \<and> length (iters seeded) = 2
 \<and> Next_false 0 \<in> set (take 11 full_crawl) \<and> Next_false 1 \<in> set (take 11 full_crawl)
 \<and> Time_out \<notin> set full_crawl"
proof -
  obtain s where ev: "run_steps 0 full_crawl (run_start seeded (clock 2000)) = Some s"
    using full_crawl_run by auto
  obtain s' where ev': "run_steps 0 (take 11 full_crawl) (run_start seeded (clock 2000)) = Some s'"
    and p: "phase s' = AfterLoop"
    using full_crawl_left by auto
  have c: "\<not> closed seeded"
    by (simp add: seeded_def newCrawler_def)
  have n: "length (iters seeded) = 2"
    by (simp add: seeded_def newCrawler_def)
  from run_without_timeout [OF _ c ev] run_without_timeout [OF _ c ev'] p n
    full_crawl_run full_crawl_left c
  show ?thesis by (auto simp add: numeral_2_eq_2 less_Suc_eq)
qed



end
